theory Spec2Isabelle
  imports Main "HOL-Library.Word" "HOL-Library.Monad_Syntax"
begin

section \<open>Machine integers, byte slices and runtime panics\<close>

text \<open>
  Go's \<open>int64\<close> is a 64-bit word read in two's complement (\<open>sint\<close>).  The
  \<open>precision\<close> argument has Go type \<open>int\<close>; the code only compares it with
  constants and adds it (when negative) to a slice length of at most 20, which cannot
  overflow, so it is modelled as a mathematical integer.  A byte slice is a list of
  characters.  An index expression outside the bounds of a slice is a run-time panic in
  Go: here it is the value \<open>None\<close>.
\<close>

type_synonym int64 = "64 word"

definition MaxInt64 :: int where
  "MaxInt64 = 2 ^ 63 - 1"

definition MinInt64 :: int where
  "MinInt64 = - (2 ^ 63)"

definition index :: "'a list \<Rightarrow> int \<Rightarrow> 'a option" where
  "index xs i = (if 0 \<le> i \<and> i < int (length xs) then Some (xs ! nat i) else None)"

definition store :: "'a list \<Rightarrow> int \<Rightarrow> 'a \<Rightarrow> 'a list option" where
  "store xs i v = (if 0 \<le> i \<and> i < int (length xs) then Some (xs[nat i := v]) else None)"

definition slice_from :: "'a list \<Rightarrow> int \<Rightarrow> 'a list option" where
  "slice_from xs i = (if 0 \<le> i \<and> i \<le> int (length xs) then Some (drop (nat i) xs) else None)"

section \<open>The standard library functions the package calls\<close>

text \<open>
  \<open>strconv.FormatInt(x, 10)\<close>: the decimal digits of the magnitude, most significant
  first, after a minus sign when \<open>x\<close> is negative.
\<close>

definition digits :: string where
  "digits = ''0123456789''"

fun FormatUint :: "nat \<Rightarrow> string" where
  "FormatUint n =
     (if n < 10 then [digits ! n] else FormatUint (n div 10) @ [digits ! (n mod 10)])"

declare FormatUint.simps [simp del]

definition FormatInt :: "int64 \<Rightarrow> string" where
  "FormatInt x =
     (if sint x < 0 then CHR ''-'' # FormatUint (nat (- sint x)) else FormatUint (nat (sint x)))"

text \<open>
  \<open>strconv.ParseInt(s, 10, 64)\<close>.  \<open>ParseUint\<close> accumulates the digits in a
  \<open>uint64\<close> and returns the largest value with a range error as soon as the next step
  would overflow; \<open>ParseInt\<close> strips the sign, keeps the value of a range error and
  clamps the magnitude to the \<open>int64\<close> range.
\<close>

datatype NumError = ErrSyntax | ErrRange

definition maxUint64 :: nat where
  "maxUint64 = 2 ^ 64 - 1"

definition digit_val :: "char \<Rightarrow> nat option" where
  "digit_val c = map_of (zip digits [0 ..< 10]) c"

fun ParseUint_loop :: "nat \<Rightarrow> string \<Rightarrow> nat \<times> NumError option" where
  "ParseUint_loop n [] = (n, None)"
| "ParseUint_loop n (c # cs) =
     (case digit_val c of
        None \<Rightarrow> (0, Some ErrSyntax)
      | Some d \<Rightarrow>
          if n \<ge> maxUint64 div 10 + 1 then (maxUint64, Some ErrRange)
          else if n * 10 + d > maxUint64 then (maxUint64, Some ErrRange)
          else ParseUint_loop (n * 10 + d) cs)"

definition ParseUint :: "string \<Rightarrow> nat \<times> NumError option" where
  "ParseUint s = (if s = [] then (0, Some ErrSyntax) else ParseUint_loop 0 s)"

definition ParseInt :: "string \<Rightarrow> int64 \<times> NumError option" where
  "ParseInt s =
     (if s = [] then (0, Some ErrSyntax)
      else
        let neg = (hd s = CHR ''-'');
            s1 = (if hd s = CHR ''+'' \<or> hd s = CHR ''-'' then tl s else s);
            (un, err) = ParseUint s1
        in if err = Some ErrSyntax then (0, err)
           else if \<not> neg \<and> un \<ge> 2 ^ 63 then (word_of_int MaxInt64, Some ErrRange)
           else if neg \<and> un > 2 ^ 63 then (word_of_int MinInt64, Some ErrRange)
           else (if neg then - word_of_nat un else word_of_nat un, None))"

section \<open>RoundInt (decimals.go)\<close>

text \<open>The map from decimal bytes to integers; a missing key reads as zero.\<close>

definition decimalInts :: "char \<Rightarrow> int" where
  "decimalInts c =
     (case map_of
        [(CHR ''0'', 0), (CHR ''1'', 1), (CHR ''2'', 2), (CHR ''3'', 3), (CHR ''4'', 4),
         (CHR ''5'', 5), (CHR ''6'', 6), (CHR ''7'', 7), (CHR ''8'', 8), (CHR ''9'', 9)] c of
        Some v \<Rightarrow> v
      | None \<Rightarrow> 0)"

definition decimalBytes :: string where
  "decimalBytes = ''0123456789''"

text \<open>
  The loop \<open>for i := roundFrom; i > 0; i--\<close>: it stops at the first digit left of
  \<open>i\<close> that is less than nine, increments it and records \<open>zeroFrom = i\<close>.
\<close>

function carry_loop :: "int \<Rightarrow> string \<Rightarrow> int \<Rightarrow> (string \<times> int) option" where
  "carry_loop i xslice zeroFrom =
     (if i > 0 then
        (case index xslice (i - 1) of
           None \<Rightarrow> None
         | Some c \<Rightarrow>
             let nextDigit = decimalInts c in
             if nextDigit < 9 then
               (case index decimalBytes (nextDigit + 1) of
                  None \<Rightarrow> None
                | Some b \<Rightarrow>
                    (case store xslice (i - 1) b of
                       None \<Rightarrow> None
                     | Some xslice' \<Rightarrow> Some (xslice', i)))
             else carry_loop (i - 1) xslice zeroFrom)
      else Some (xslice, zeroFrom))"
  by pat_completeness auto
termination
  by (relation "measure (\<lambda>(i, xslice, zeroFrom). nat i)") auto

declare carry_loop.simps [simp del]

text \<open>The loop \<open>for i := zeroFrom; i < len(xslice); i++ { xslice[i] = '0' }\<close>.\<close>

function zero_loop :: "int \<Rightarrow> string \<Rightarrow> string option" where
  "zero_loop i xslice =
     (if i < int (length xslice) then
        (case store xslice i (CHR ''0'') of
           None \<Rightarrow> None
         | Some xslice' \<Rightarrow> zero_loop (i + 1) xslice')
      else Some xslice)"
  by pat_completeness auto
termination
  by (relation "measure (\<lambda>(i, xslice). nat (int (length xslice) - i))")
    (auto simp: store_def split: if_splits)

declare zero_loop.simps [simp del]

text \<open>
  The common tail of the function: zero the digits from \<open>zeroFrom\<close>, put the sign
  back, parse the slice and drop the error that \<open>ParseInt\<close> reports.
\<close>

definition finish :: "int64 \<Rightarrow> string \<Rightarrow> int \<Rightarrow> int64 option" where
  "finish x xslice zeroFrom =
     (case zero_loop zeroFrom xslice of
        None \<Rightarrow> None
      | Some xslice' \<Rightarrow>
          let rstr = (if sint x < 0 then ''-'' @ xslice' else xslice')
          in Some (fst (ParseInt rstr)))"

definition RoundInt :: "int64 \<Rightarrow> int \<Rightarrow> int64 option" where
  "RoundInt x precision =
     (let xstr = FormatInt x in
      if precision > -1 then Some x
      else
        (case (if sint x < 0 then slice_from xstr 1 else Some xstr) of
           None \<Rightarrow> None
         | Some xslice \<Rightarrow>
             let roundFrom = int (length xslice) + precision in
             if roundFrom < 0 then Some 0
             else if roundFrom = 0 then
               (case index xslice 0 of
                  None \<Rightarrow> None
                | Some c \<Rightarrow>
                    let firstDigit = decimalInts c in
                    if firstDigit < 5 then Some 0
                    else finish x (CHR ''1'' # xslice) 1)
             else
               (case index xslice roundFrom of
                  None \<Rightarrow> None
                | Some c \<Rightarrow>
                    let roundDigit = decimalInts c in
                    if roundDigit < 5 then finish x xslice roundFrom
                    else
                      (case carry_loop roundFrom xslice (-1) of
                         None \<Rightarrow> None
                       | Some (xslice', zeroFrom) \<Rightarrow>
                           if zeroFrom = -1 then finish x (CHR ''1'' # xslice') 1
                           else finish x xslice' zeroFrom))))"

section \<open>FormatThousands (decimals.go)\<close>

text \<open>Go's integer division truncates towards zero.\<close>

definition quo :: "int \<Rightarrow> int \<Rightarrow> int" where
  "quo a b = sgn a * sgn b * (\<bar>a\<bar> div \<bar>b\<bar>)"

text \<open>
  The state of the copying loops is the output slice with the two indices \<open>i\<close> (into
  \<open>xslice\<close>) and \<open>j\<close> (into \<open>fslice\<close>).  The inner loop
  \<open>for l := 0; l < 3; l++\<close> copies one digit per round.
\<close>

function copy3 :: "int \<Rightarrow> string \<Rightarrow> string \<times> int \<times> int \<Rightarrow> (string \<times> int \<times> int) option" where
  "copy3 l xslice (fslice, i, j) =
     (if l < 3 then
        (case index xslice i of
           None \<Rightarrow> None
         | Some c \<Rightarrow>
             (case store fslice j c of
                None \<Rightarrow> None
              | Some fslice' \<Rightarrow> copy3 (l + 1) xslice (fslice', i - 1, j - 1)))
      else Some (fslice, i, j))"
  by pat_completeness auto
termination
  by (relation "measure (\<lambda>(l, xslice, st). nat (3 - l))") auto

declare copy3.simps [simp del]

text \<open>The outer loop \<open>for k := 0; k < commas; k++\<close>: three digits, then a comma.\<close>

function batch_loop ::
  "int \<Rightarrow> int \<Rightarrow> string \<Rightarrow> string \<times> int \<times> int \<Rightarrow> (string \<times> int \<times> int) option" where
  "batch_loop k commas xslice st =
     (if k < commas then
        (case copy3 0 xslice st of
           None \<Rightarrow> None
         | Some (fslice, i, j) \<Rightarrow>
             (case store fslice j (CHR '','') of
                None \<Rightarrow> None
              | Some fslice' \<Rightarrow> batch_loop (k + 1) commas xslice (fslice', i, j - 1)))
      else Some st)"
  by pat_completeness auto
termination
  by (relation "measure (\<lambda>(k, commas, xslice, st). nat (commas - k))") auto

declare batch_loop.simps [simp del]

text \<open>The last loop \<open>for ; i >= 0; i, j = i - 1, j - 1\<close> copies what is left, sign included.\<close>

function rest_loop :: "string \<Rightarrow> string \<times> int \<times> int \<Rightarrow> string option" where
  "rest_loop xslice (fslice, i, j) =
     (if i \<ge> 0 then
        (case index xslice i of
           None \<Rightarrow> None
         | Some c \<Rightarrow>
             (case store fslice j c of
                None \<Rightarrow> None
              | Some fslice' \<Rightarrow> rest_loop xslice (fslice', i - 1, j - 1)))
      else Some fslice)"
  by pat_completeness auto
termination
  by (relation "measure (\<lambda>(xslice, fslice, i, j). nat (i + 1))") auto

declare rest_loop.simps [simp del]

text \<open>\<open>make([]byte, lenf)\<close> is a slice of zero bytes, and panics for a negative length.\<close>

definition FormatThousands :: "int64 \<Rightarrow> string option" where
  "FormatThousands x =
     (let xstr = FormatInt x;
          xslice = xstr;
          lenx = int (length xslice);
          commas = (if sint x < 0 then quo (lenx - 2) 3 else quo (lenx - 1) 3);
          lenf = lenx + commas
      in if lenf < 0 then None
         else
           let fslice = replicate (nat lenf) (CHR 0x00) in
           (case batch_loop 0 commas xslice (fslice, lenx - 1, lenf - 1) of
              None \<Rightarrow> None
            | Some st \<Rightarrow> rest_loop xslice st))"

text \<open>
  The specification's reading of the result, to compare the code with: a separator is
  inserted every three digits counted from the least significant digit.  The digits are
  taken least significant first and the result is turned round again.
\<close>

fun group3_rev :: "string \<Rightarrow> string" where
  "group3_rev (a # b # c # d # ds) = a # b # c # CHR '','' # group3_rev (d # ds)"
| "group3_rev ds = ds"

definition group_thousands :: "string \<Rightarrow> string" where
  "group_thousands ds = rev (group3_rev (rev ds))"

text \<open>For the proofs: the first \<open>c\<close> groups of three, each followed by a comma.\<close>

fun emit :: "nat \<Rightarrow> string \<Rightarrow> string" where
  "emit 0 r = r"
| "emit (Suc c) r = take 3 r @ CHR '','' # emit c (drop 3 r)"

section \<open>IEEE-754 double precision values\<close>

text \<open>
  A finite \<open>float64\<close> is a sign, a mantissa and a binary exponent: \<open>Finite s m e\<close>
  is \<open>(-1) ^ s * m * 2 ^ e\<close>.  The mantissa is kept odd (zero is \<open>Finite s 0 0\<close>, with
  its sign), so that equal values are equal terms.  \<open>bitlen\<close> is the length of a
  number in bits and \<open>norm2\<close> strips the factors of two of a mantissa.
\<close>

datatype float64 = Finite bool nat int | Infinity bool | NaN

fun bitlen :: "nat \<Rightarrow> nat" where
  "bitlen n = (if n = 0 then 0 else Suc (bitlen (n div 2)))"

declare bitlen.simps [simp del]

fun norm2 :: "nat \<Rightarrow> int \<Rightarrow> nat \<times> int" where
  "norm2 m e = (if m = 0 then (0, 0) else if even m then norm2 (m div 2) (e + 1) else (m, e))"

declare norm2.simps [simp del]

definition dyadic :: "bool \<Rightarrow> nat \<Rightarrow> int \<Rightarrow> float64" where
  "dyadic s m e = (case norm2 m e of (m', e') \<Rightarrow> Finite s m' e')"

text \<open>
  Rounding to nearest, ties to even, as the hardware and the standard library do it.
  \<open>round_half_even n d\<close> is the integer nearest to \<open>n / d\<close>; \<open>ilog2 n d\<close> is the
  binary exponent \<open>\<lfloor>log\<^sub>2 (n / d)\<rfloor>\<close>; \<open>round64 s n d\<close> is the \<open>float64\<close> nearest
  to \<open>n / d\<close> with sign \<open>s\<close>: 53 significant bits, exponents from \<open>-1074\<close>
  (subnormal numbers) on, infinity from \<open>2 ^ 1024\<close> on.
\<close>

definition round_half_even :: "nat \<Rightarrow> nat \<Rightarrow> nat" where
  "round_half_even n d =
     (let q = n div d; r = n mod d
      in if 2 * r < d then q else if d < 2 * r then q + 1 else if even q then q else q + 1)"

definition ilog2 :: "nat \<Rightarrow> nat \<Rightarrow> int" where
  "ilog2 n d =
     (let t = int (bitlen n) - int (bitlen d)
      in if d * 2 ^ nat t \<le> n * 2 ^ nat (- t) then t else t - 1)"

definition round64 :: "bool \<Rightarrow> nat \<Rightarrow> nat \<Rightarrow> float64" where
  "round64 s n d =
     (if n = 0 then Finite s 0 0
      else
        let e = max (ilog2 n d - 52) (- 1074);
            m = round_half_even (n * 2 ^ nat (- e)) (d * 2 ^ nat e)
        in if 1024 < int (bitlen m) + e then Infinity s else dyadic s m e)"

text \<open>
  Go's conversions.  \<open>float64(i)\<close> rounds to nearest even.  \<open>int64(f)\<close> discards the
  fraction (truncation towards zero); when the value is not an \<open>int64\<close>, or is an
  infinity or NaN, the language leaves the result to the implementation: here \<open>None\<close>.
\<close>

definition float64_of_int :: "int \<Rightarrow> float64" where
  "float64_of_int v = round64 (v < 0) (nat \<bar>v\<bar>) 1"

definition float64_of_int64 :: "int64 \<Rightarrow> float64" where
  "float64_of_int64 x = float64_of_int (sint x)"

definition trunc_nat :: "nat \<Rightarrow> int \<Rightarrow> nat" where
  "trunc_nat m e = (if 0 \<le> e then m * 2 ^ nat e else m div 2 ^ nat (- e))"

definition int64_of_float64 :: "float64 \<Rightarrow> int64 option" where
  "int64_of_float64 f =
     (case f of
        Finite s m e \<Rightarrow>
          let v = (if s then - int (trunc_nat m e) else int (trunc_nat m e))
          in if MinInt64 \<le> v \<and> v \<le> MaxInt64 then Some (word_of_int v) else None
      | Infinity s \<Rightarrow> None
      | NaN \<Rightarrow> None)"

text \<open>
  The functions of package \<open>math\<close> that the sources call.  \<open>Modf\<close> returns the
  integer and the fractional part, both with the sign of the argument.  \<open>ge_half f\<close>
  is the comparison \<open>f >= 0.5\<close>.  \<open>fmul\<close> and \<open>fdiv\<close> are the operators
  \<open>*\<close> and \<open>/\<close> on \<open>float64\<close>.  The sign bit of a NaN is not modelled: a NaN keeps
  no sign.
\<close>

definition Modf :: "float64 \<Rightarrow> float64 \<times> float64" where
  "Modf f =
     (case f of
        Finite s m e \<Rightarrow>
          if 0 \<le> e then (Finite s m e, Finite s 0 0)
          else (dyadic s (m div 2 ^ nat (- e)) 0, dyadic s (m mod 2 ^ nat (- e)) e)
      | Infinity s \<Rightarrow> (Infinity s, NaN)
      | NaN \<Rightarrow> (NaN, NaN))"

definition Abs :: "float64 \<Rightarrow> float64" where
  "Abs f = (case f of Finite s m e \<Rightarrow> Finite False m e | Infinity s \<Rightarrow> Infinity False | NaN \<Rightarrow> NaN)"

definition Signbit :: "float64 \<Rightarrow> bool" where
  "Signbit f = (case f of Finite s m e \<Rightarrow> s | Infinity s \<Rightarrow> s | NaN \<Rightarrow> False)"

definition Copysign :: "float64 \<Rightarrow> float64 \<Rightarrow> float64" where
  "Copysign f sign =
     (case f of
        Finite s m e \<Rightarrow> Finite (Signbit sign) m e
      | Infinity s \<Rightarrow> Infinity (Signbit sign)
      | NaN \<Rightarrow> NaN)"

definition Floor :: "float64 \<Rightarrow> float64" where
  "Floor f =
     (case f of
        Finite s m e \<Rightarrow>
          if 0 \<le> e then Finite s m e
          else if s then dyadic True (m div 2 ^ nat (- e) + 1) 0
          else dyadic False (m div 2 ^ nat (- e)) 0
      | Infinity s \<Rightarrow> Infinity s
      | NaN \<Rightarrow> NaN)"

definition Ceil :: "float64 \<Rightarrow> float64" where
  "Ceil f =
     (case f of
        Finite s m e \<Rightarrow>
          if 0 \<le> e then Finite s m e
          else if s then dyadic True (m div 2 ^ nat (- e)) 0
          else dyadic False (m div 2 ^ nat (- e) + 1) 0
      | Infinity s \<Rightarrow> Infinity s
      | NaN \<Rightarrow> NaN)"

definition ge_half :: "float64 \<Rightarrow> bool" where
  "ge_half f =
     (case f of
        Finite s m e \<Rightarrow> \<not> s \<and> 2 ^ nat (- (e + 1)) \<le> m * 2 ^ nat (e + 1)
      | Infinity s \<Rightarrow> \<not> s
      | NaN \<Rightarrow> False)"

definition fmul :: "float64 \<Rightarrow> float64 \<Rightarrow> float64" where
  "fmul a b =
     (case (a, b) of
        (NaN, _) \<Rightarrow> NaN
      | (_, NaN) \<Rightarrow> NaN
      | (Infinity s1, Infinity s2) \<Rightarrow> Infinity (s1 \<noteq> s2)
      | (Infinity s1, Finite s2 m2 e2) \<Rightarrow> if m2 = 0 then NaN else Infinity (s1 \<noteq> s2)
      | (Finite s1 m1 e1, Infinity s2) \<Rightarrow> if m1 = 0 then NaN else Infinity (s1 \<noteq> s2)
      | (Finite s1 m1 e1, Finite s2 m2 e2) \<Rightarrow>
          round64 (s1 \<noteq> s2) (m1 * m2 * 2 ^ nat (e1 + e2)) (2 ^ nat (- (e1 + e2))))"

definition fdiv :: "float64 \<Rightarrow> float64 \<Rightarrow> float64" where
  "fdiv a b =
     (case (a, b) of
        (NaN, _) \<Rightarrow> NaN
      | (_, NaN) \<Rightarrow> NaN
      | (Infinity s1, Infinity s2) \<Rightarrow> NaN
      | (Infinity s1, Finite s2 m2 e2) \<Rightarrow> Infinity (s1 \<noteq> s2)
      | (Finite s1 m1 e1, Infinity s2) \<Rightarrow> Finite (s1 \<noteq> s2) 0 0
      | (Finite s1 m1 e1, Finite s2 m2 e2) \<Rightarrow>
          if m2 = 0 then (if m1 = 0 then NaN else Infinity (s1 \<noteq> s2))
          else round64 (s1 \<noteq> s2) (m1 * 2 ^ nat (e1 - e2)) (m2 * 2 ^ nat (e2 - e1)))"

text \<open>
  \<open>math.Pow(10, y)\<close>, for the arguments where its result is certain: \<open>1\<close> for
  \<open>y = 0\<close> (a documented special case), the exact power for an integer
  \<open>0 < y \<le> 22\<close> (every intermediate product is exact there), and \<open>+Inf\<close> from
  \<open>y = 309\<close> on.  In between the function returns an approximation whose last bit
  its documentation does not fix, and the sources never pass a negative argument: both
  are \<open>None\<close>.
\<close>

definition Pow10 :: "float64 \<Rightarrow> float64 option" where
  "Pow10 y =
     (case y of
        Finite s m e \<Rightarrow>
          if m = 0 then Some (Finite False 1 0)
          else if \<not> s \<and> 0 \<le> e then
            (let k = m * 2 ^ nat e
             in if k \<le> 22 then Some (dyadic False (10 ^ k) 0)
                else if 309 \<le> k then Some (Infinity False)
                else None)
          else None
      | Infinity s \<Rightarrow> None
      | NaN \<Rightarrow> None)"

text \<open>
  \<open>strconv.FormatFloat(x, 'f', prec, 64)\<close> prints the exact decimal expansion of the
  binary value, rounded to \<open>prec\<close> digits after the point; a value exactly half way
  between two candidates goes to the even one.  \<open>strconv.ParseFloat(s, 64)\<close> returns
  the \<open>float64\<close> nearest to the decimal number written in \<open>s\<close>, with a range error
  when that is an infinity.  The model of \<open>ParseFloat\<close> covers the strings that the
  format \<open>'f'\<close> produces (a sign, digits, a point, digits, and the words for NaN and
  the infinities); any other string is \<open>None\<close>.
\<close>

definition FormatFloat_f :: "float64 \<Rightarrow> nat \<Rightarrow> string" where
  "FormatFloat_f f prec =
     (case f of
        Finite s m e \<Rightarrow>
          let n = round_half_even (m * 10 ^ prec * 2 ^ nat e) (2 ^ nat (- e));
              frac = FormatUint (n mod 10 ^ prec)
          in (if s then ''-'' else []) @ FormatUint (n div 10 ^ prec) @
             (if 0 < prec then ''.'' @ replicate (prec - length frac) (CHR ''0'') @ frac else [])
      | Infinity s \<Rightarrow> (if s then ''-Inf'' else ''+Inf'')
      | NaN \<Rightarrow> ''NaN'')"

definition decimal_value :: "string \<Rightarrow> nat" where
  "decimal_value s = foldl (\<lambda>a c. 10 * a + (case digit_val c of Some d \<Rightarrow> d | None \<Rightarrow> 0)) 0 s"

definition ParseFloat :: "string \<Rightarrow> (float64 \<times> NumError option) option" where
  "ParseFloat str =
     (if str = ''NaN'' then Some (NaN, None)
      else if str = ''+Inf'' then Some (Infinity False, None)
      else if str = ''-Inf'' then Some (Infinity True, None)
      else
        let neg = (str \<noteq> [] \<and> hd str = CHR ''-'');
            body = (if str \<noteq> [] \<and> (hd str = CHR ''-'' \<or> hd str = CHR ''+'') then tl str else str);
            ip = takeWhile (\<lambda>c. c \<in> set digits) body;
            rest = dropWhile (\<lambda>c. c \<in> set digits) body;
            fp = (if rest = [] then [] else tl rest)
        in if (rest = [] \<or> hd rest = CHR ''.'') \<and> list_all (\<lambda>c. c \<in> set digits) fp
                \<and> ip @ fp \<noteq> []
           then
             let v = round64 neg (decimal_value (ip @ fp)) (10 ^ length fp)
             in Some (v, case v of Infinity s \<Rightarrow> Some ErrRange | _ \<Rightarrow> None)
           else None)"

section \<open>RoundFloat (decimals.go)\<close>

text \<open>\<open>None\<close> is a run that panics or that leaves the modelled part of the language.\<close>

definition RoundFloat :: "float64 \<Rightarrow> int \<Rightarrow> float64 option" where
  "RoundFloat x precision =
     (if precision < 0 then
        (let (i, frac) = Modf x in
         case int64_of_float64 i of
           None \<Rightarrow> None
         | Some i64 \<Rightarrow>
             (case RoundInt i64 precision of
                None \<Rightarrow> None
              | Some r \<Rightarrow> Some (float64_of_int64 r)))
      else
        (let rstr = FormatFloat_f x (nat precision) in
         case ParseFloat rstr of
           None \<Rightarrow> None
         | Some (r, err) \<Rightarrow> Some r))"

section \<open>RoundInt and RoundFloat by scaling (the unnamed source file)\<close>

text \<open>
  The second source file declares \<open>RoundInt\<close> and \<open>RoundFloat\<close> again, computing
  in \<open>float64\<close>: scale by a power of ten, round with \<open>Ceil\<close> or \<open>Floor\<close>, scale
  back.  Its parameter \<open>power\<close> is \<open>power0\<close> here.  The negation \<open>-power\<close>
  overflows for the least \<open>int\<close>; that case (and any value below it, which no Go
  \<open>int\<close> of 64 bits has) is \<open>None\<close>.
\<close>

definition RoundInt_scaling :: "int64 \<Rightarrow> int \<Rightarrow> int64 option" where
  "RoundInt_scaling x power0 =
     (if power0 \<le> MinInt64 then None
      else
        let power1 = (if power0 > 0 then 0 else power0);
            power2 = - power1;
            y = float64_of_int64 x;
            a = Abs y;
            pow = float64_of_int power2
        in case Pow10 pow of
             None \<Rightarrow> None
           | Some p \<Rightarrow>
               let s = fdiv a p;
                   (ipart, f) = Modf s;
                   r = (if ge_half f then Ceil s else Floor s);
                   ar = fmul r p
               in int64_of_float64 (Copysign ar y))"

definition RoundFloat_scaling :: "float64 \<Rightarrow> int \<Rightarrow> float64 option" where
  "RoundFloat_scaling x precision =
     (if precision < 0 then
        (let (i, frac) = Modf x in
         case int64_of_float64 i of
           None \<Rightarrow> None
         | Some i64 \<Rightarrow>
             (case RoundInt_scaling i64 precision of
                None \<Rightarrow> None
              | Some r \<Rightarrow> Some (float64_of_int64 r)))
      else
        let a = Abs x in
        case Pow10 (float64_of_int precision) of
          None \<Rightarrow> None
        | Some p \<Rightarrow>
            let s = fmul a p;
                (ipart, f) = Modf s;
                r = (if ge_half f then Ceil s else Floor s);
                ar = fdiv r p
            in Some (Copysign ar x))"

section \<open>Digit strings and their values\<close>

text \<open>
  Two notions for the proofs: a string made of decimal digits only, and the number that
  such a string denotes (read through the package's own table \<open>decimalInts\<close>).
\<close>

definition is_digits :: "string \<Rightarrow> bool" where
  "is_digits s = list_all (\<lambda>c. c \<in> set digits) s"

definition dval :: "string \<Rightarrow> nat" where
  "dval s = foldl (\<lambda>a c. 10 * a + nat (decimalInts c)) 0 s"

text \<open>
  The arithmetic reading of the rounding: the magnitude rounded half up to a multiple of
  \<open>10 ^ k\<close>, the sign put back, and the saturation of a value to the \<open>int64\<close>
  range.
\<close>

definition clamp64 :: "int \<Rightarrow> int" where
  "clamp64 v = max MinInt64 (min MaxInt64 v)"

definition round_half_up :: "nat \<Rightarrow> nat \<Rightarrow> nat" where
  "round_half_up n k = (n + 5 * 10 ^ (k - 1)) div 10 ^ k * 10 ^ k"

definition rounded :: "int64 \<Rightarrow> int \<Rightarrow> int" where
  "rounded x precision =
     sgn (sint x) * int (round_half_up (nat \<bar>sint x\<bar>) (nat (- precision)))"

section \<open>Facts about the digit tables\<close>

lemma digits_cases:
  "c \<in> set digits \<longleftrightarrow> c = CHR ''0'' \<or> c = CHR ''1'' \<or> c = CHR ''2'' \<or> c = CHR ''3'' \<or> c = CHR ''4''
     \<or> c = CHR ''5'' \<or> c = CHR ''6'' \<or> c = CHR ''7'' \<or> c = CHR ''8'' \<or> c = CHR ''9''"
  unfolding digits_def by simp

lemma nat_lt_10_cases:
  "(d::nat) < 10 \<Longrightarrow> d = 0 \<or> d = 1 \<or> d = 2 \<or> d = 3 \<or> d = 4 \<or> d = 5 \<or> d = 6 \<or> d = 7 \<or> d = 8 \<or> d = 9"
  by arith

lemma digits_nth_mem: "d < 10 \<Longrightarrow> digits ! d \<in> set digits"
  by (drule nat_lt_10_cases, elim disjE) (simp_all add: digits_def)

lemma decimalInts_digits_nth: "d < 10 \<Longrightarrow> decimalInts (digits ! d) = int d"
  by (drule nat_lt_10_cases, elim disjE) (simp_all add: digits_def decimalInts_def)

lemma decimalInts_range: "c \<in> set digits \<Longrightarrow> 0 \<le> decimalInts c \<and> decimalInts c \<le> 9"
  unfolding digits_cases by (elim disjE) (simp_all add: decimalInts_def)

lemma digit_val_digits_nth: "d < 10 \<Longrightarrow> digit_val (digits ! d) = Some d"
  by (drule nat_lt_10_cases, elim disjE) (simp_all add: digit_val_def digits_def upt_rec)

lemma digit_val_decimalInts: "c \<in> set digits \<Longrightarrow> digit_val c = Some (nat (decimalInts c))"
  unfolding digits_cases
  by (elim disjE) (simp_all add: decimalInts_def digit_val_def digits_def upt_rec)

lemma decimalBytes_succ:
  "c \<in> set digits \<Longrightarrow> decimalInts c < 9 \<Longrightarrow>
     \<exists>b. index decimalBytes (decimalInts c + 1) = Some b \<and> b \<in> set digits
        \<and> decimalInts b = decimalInts c + 1"
  unfolding digits_cases
  by (elim disjE) (simp_all add: decimalInts_def index_def decimalBytes_def)

lemma digits_not_sign: "c \<in> set digits \<Longrightarrow> c \<noteq> CHR ''-'' \<and> c \<noteq> CHR ''+''"
  unfolding digits_cases by (elim disjE) simp_all


section \<open>Facts about digit strings\<close>

lemma is_digits_Nil [simp]: "is_digits []"
  by (simp add: is_digits_def)

lemma is_digits_Cons [simp]: "is_digits (c # cs) \<longleftrightarrow> c \<in> set digits \<and> is_digits cs"
  by (simp add: is_digits_def)

lemma is_digits_append [simp]: "is_digits (a @ b) \<longleftrightarrow> is_digits a \<and> is_digits b"
  by (simp add: is_digits_def)

lemma is_digits_replicate_zero [simp]: "is_digits (replicate m (CHR ''0''))"
  by (simp add: is_digits_def list_all_iff digits_def)

lemma is_digits_nth: "is_digits s \<Longrightarrow> i < length s \<Longrightarrow> s ! i \<in> set digits"
  by (simp add: is_digits_def list_all_length)

lemma is_digits_take: "is_digits s \<Longrightarrow> is_digits (take n s)"
  by (auto simp: is_digits_def list_all_iff dest: in_set_takeD)

lemma is_digits_drop: "is_digits s \<Longrightarrow> is_digits (drop n s)"
  by (auto simp: is_digits_def list_all_iff dest: in_set_dropD)

lemma is_digits_update: "is_digits s \<Longrightarrow> b \<in> set digits \<Longrightarrow> is_digits (s[i := b])"
  by (auto simp: is_digits_def list_all_iff dest!: set_update_subset_insert [THEN subsetD])

lemma dval_Nil [simp]: "dval [] = 0"
  by (simp add: dval_def)

lemma dval_snoc [simp]: "dval (s @ [c]) = 10 * dval s + nat (decimalInts c)"
  by (simp add: dval_def)

lemma dval_append: "dval (a @ b) = dval a * 10 ^ length b + dval b"
  by (induction b rule: rev_induct) (simp_all add: algebra_simps flip: append_assoc)

lemma dval_Cons: "dval (c # cs) = nat (decimalInts c) * 10 ^ length cs + dval cs"
  using dval_append [of "[c]" cs] dval_snoc [of "[]" c] by simp

lemma dval_replicate_zero [simp]: "dval (replicate m (CHR ''0'')) = 0"
  by (induction m) (simp_all add: dval_Cons decimalInts_def)

lemma dval_less: "is_digits s \<Longrightarrow> dval s < 10 ^ length s"
proof (induction s rule: rev_induct)
  case Nil
  then show ?case by simp
next
  case (snoc c s)
  then have "dval s < 10 ^ length s" and "nat (decimalInts c) \<le> 9"
    using decimalInts_range [of c] by auto
  then show ?case by simp
qed

lemma FormatUint_digits: "is_digits (FormatUint n)"
proof (induction n rule: FormatUint.induct)
  case (1 n)
  show ?case
  proof (cases "n < 10")
    case True
    then show ?thesis by (subst FormatUint.simps) (simp add: digits_nth_mem)
  next
    case False
    with 1 show ?thesis by (subst FormatUint.simps) (simp add: digits_nth_mem)
  qed
qed

lemma FormatUint_dval: "dval (FormatUint n) = n"
proof (induction n rule: FormatUint.induct)
  case (1 n)
  show ?case
  proof (cases "n < 10")
    case True
    then show ?thesis
      using dval_snoc [of "[]" "digits ! n"]
      by (subst FormatUint.simps) (simp add: decimalInts_digits_nth)
  next
    case False
    with 1 show ?thesis
      by (subst FormatUint.simps) (simp add: decimalInts_digits_nth)
  qed
qed

lemma FormatUint_nonempty: "FormatUint n \<noteq> []"
  by (subst FormatUint.simps) simp


section \<open>The loops of RoundInt\<close>

lemma zero_loop_eq:
  "0 \<le> z \<Longrightarrow> z \<le> int (length s) \<Longrightarrow>
     zero_loop z s = Some (take (nat z) s @ replicate (length s - nat z) (CHR ''0''))"
proof (induction z s rule: zero_loop.induct)
  case (1 i xslice)
  show ?case
  proof (cases "i < int (length xslice)")
    case False
    with 1(2,3) show ?thesis by (subst zero_loop.simps) simp
  next
    case True
    let ?xs' = "xslice[nat i := CHR ''0'']"
    have st: "store xslice i (CHR ''0'') = Some ?xs'"
      using True 1(2) by (simp add: store_def)
    have ih: "zero_loop (i + 1) ?xs' =
        Some (take (nat (i + 1)) ?xs' @ replicate (length ?xs' - nat (i + 1)) (CHR ''0''))"
      using 1(1) [OF True st] True 1(2) by simp
    have n: "nat (i + 1) = Suc (nat i)" "nat i < length xslice"
      using True 1(2) by auto
    have "take (Suc (nat i)) ?xs' = take (nat i) xslice @ [CHR ''0'']"
      using n(2) by (simp add: take_Suc_conv_app_nth)
    moreover have "length xslice - nat i = Suc (length xslice - Suc (nat i))"
      using n(2) by simp
    ultimately show ?thesis
      using ih st True n by (subst zero_loop.simps) (simp add: replicate_app_Cons_same)
  qed
qed

lemma carry_loop_spec:
  "is_digits s \<Longrightarrow> 0 \<le> r \<Longrightarrow> r \<le> int (length s) \<Longrightarrow>
     (carry_loop r s (-1) = Some (s, -1) \<and> dval (take (nat r) s) + 1 = 10 ^ nat r) \<or>
     (\<exists>s' z. carry_loop r s (-1) = Some (s', z) \<and> 1 \<le> z \<and> z \<le> r \<and>
        length s' = length s \<and> is_digits s' \<and>
        dval (take (nat z) s') * 10 ^ (nat r - nat z) = dval (take (nat r) s) + 1)"
proof (induction r s "-1::int" rule: carry_loop.induct)
  case (1 i xslice)
  show ?case
  proof (cases "i > 0")
    case False
    with 1(3) have "i = 0" by simp
    then show ?thesis by (subst carry_loop.simps) simp
  next
    case True
    define j where "j = nat (i - 1)"
    have j: "j < length xslice" "nat i = Suc j" "i - 1 = int j"
      using True 1(4) by (auto simp: j_def)
    define c where "c = xslice ! j"
    have c: "c \<in> set digits" using 1(2) j(1) by (simp add: c_def is_digits_nth)
    have ix: "index xslice (i - 1) = Some c"
      using j by (simp add: index_def c_def)
    have tk: "take (Suc j) xslice = take j xslice @ [c]"
      using j(1) by (simp add: take_Suc_conv_app_nth c_def)
    show ?thesis
    proof (cases "decimalInts c < 9")
      case lt: True
      from decimalBytes_succ [OF c lt] obtain b where
        b: "index decimalBytes (decimalInts c + 1) = Some b" "b \<in> set digits"
           "decimalInts b = decimalInts c + 1" by blast
      let ?s' = "xslice[j := b]"
      have st: "store xslice (i - 1) b = Some ?s'"
        using j by (simp add: store_def)
      have cl: "carry_loop i xslice (-1) = Some (?s', i)"
        using True ix lt b(1) st by (subst carry_loop.simps) simp
      have tk': "take (Suc j) ?s' = take j xslice @ [b]"
        using j(1) by (simp add: take_Suc_conv_app_nth)
      have dv: "dval (take (Suc j) ?s') = dval (take (Suc j) xslice) + 1"
        using b(3) decimalInts_range [OF c] by (simp add: tk tk' nat_add_distrib)
      have dg: "is_digits ?s'"
        using 1(2) b(2) by (rule is_digits_update)
      have i1: "1 \<le> i" "i \<le> i" using True by simp_all
      have ln: "length ?s' = length xslice" by simp
      have dv': "dval (take (nat i) ?s') * 10 ^ (nat i - nat i) = dval (take (nat i) xslice) + 1"
        unfolding j(2) diff_self_eq_0 power_0 nat_mult_1_right by (rule dv)
      from cl i1 ln dg dv' show ?thesis by blast
    next
      case ge: False
      with decimalInts_range [OF c] have nine: "decimalInts c = 9" by simp
      have cl: "carry_loop i xslice (-1) = carry_loop (i - 1) xslice (-1)"
        using True ix ge by (subst carry_loop.simps) simp
      have ih: "(carry_loop (i - 1) xslice (-1) = Some (xslice, -1) \<and>
            dval (take j xslice) + 1 = 10 ^ j) \<or>
          (\<exists>s' z. carry_loop (i - 1) xslice (-1) = Some (s', z) \<and> 1 \<le> z \<and> z \<le> i - 1 \<and>
            length s' = length xslice \<and> is_digits s' \<and>
            dval (take (nat z) s') * 10 ^ (j - nat z) = dval (take j xslice) + 1)"
        using 1(1) [OF True ix refl ge] 1(2) j(1) by (simp add: j(3))
      have v: "dval (take (Suc j) xslice) + 1 = 10 * (dval (take j xslice) + 1)"
        using nine by (simp add: tk)
      from ih show ?thesis
      proof
        assume a: "carry_loop (i - 1) xslice (-1) = Some (xslice, -1) \<and>
            dval (take j xslice) + 1 = 10 ^ j"
        then show ?thesis using cl v j by simp
      next
        assume "\<exists>s' z. carry_loop (i - 1) xslice (-1) = Some (s', z) \<and> 1 \<le> z \<and> z \<le> i - 1 \<and>
            length s' = length xslice \<and> is_digits s' \<and>
            dval (take (nat z) s') * 10 ^ (j - nat z) = dval (take j xslice) + 1"
        then obtain s' z where sz: "carry_loop (i - 1) xslice (-1) = Some (s', z)"
          "1 \<le> z" "z \<le> i - 1" "length s' = length xslice" "is_digits s'"
          "dval (take (nat z) s') * 10 ^ (j - nat z) = dval (take j xslice) + 1" by blast
        have "Suc j - nat z = Suc (j - nat z)" using sz(2,3) j by simp
        then have "dval (take (nat z) s') * 10 ^ (Suc j - nat z) = dval (take (Suc j) xslice) + 1"
          using sz(6) v by simp
        then show ?thesis using cl sz j by auto
      qed
    qed
  qed
qed

section \<open>Rounding arithmetic and the parser on digit strings\<close>

lemma div_mult_add_less: "c < p \<Longrightarrow> (q * p + c) div p = (q::nat)"
  by simp

lemma round_half_up_down:
  assumes "0 < k" "b < 5 * 10 ^ (k - 1)"
  shows "round_half_up (a * 10 ^ k + b) k = a * 10 ^ k"
proof -
  have p: "(10::nat) ^ k = 10 * 10 ^ (k - 1)"
    using assms(1) by (cases k) simp_all
  have "b + 5 * 10 ^ (k - 1) < 10 ^ k"
    using assms(2) by (simp add: p)
  then have "(a * 10 ^ k + b + 5 * 10 ^ (k - 1)) div 10 ^ k = a"
    by (simp add: add.assoc)
  then show ?thesis by (simp add: round_half_up_def)
qed

lemma round_half_up_up:
  assumes "0 < k" "5 * 10 ^ (k - 1) \<le> b" "b < 10 ^ k"
  shows "round_half_up (a * 10 ^ k + b) k = (a + 1) * 10 ^ k"
proof -
  have p: "(10::nat) ^ k = 10 * 10 ^ (k - 1)"
    using assms(1) by (cases k) simp_all
  define c where "c = b - 5 * 10 ^ (k - 1)"
  have c: "b + 5 * 10 ^ (k - 1) = 10 ^ k + c" "c < 10 ^ k"
    using assms(2,3) by (simp_all add: c_def p)
  have "a * 10 ^ k + b + 5 * 10 ^ (k - 1) = (a + 1) * 10 ^ k + c"
    using c(1) by (simp add: algebra_simps)
  then have "(a * 10 ^ k + b + 5 * 10 ^ (k - 1)) div 10 ^ k = ((a + 1) * 10 ^ k + c) div 10 ^ k"
    by (simp only:)
  also have "\<dots> = a + 1"
    using c(2) by (rule div_mult_add_less)
  finally show ?thesis by (simp add: round_half_up_def)
qed

lemma ParseUint_loop_digits:
  "is_digits s \<Longrightarrow> n \<le> maxUint64 \<Longrightarrow>
     ParseUint_loop n s =
       (if n * 10 ^ length s + dval s \<le> maxUint64 then (n * 10 ^ length s + dval s, None)
        else (maxUint64, Some ErrRange))"
proof (induction s arbitrary: n)
  case Nil
  then show ?case by simp
next
  case (Cons c cs)
  define d where "d = nat (decimalInts c)"
  have c: "c \<in> set digits" and cs: "is_digits cs" using Cons.prems by simp_all
  have dv: "digit_val c = Some d" using c by (simp add: digit_val_decimalInts d_def)
  have tot: "n * 10 ^ length (c # cs) + dval (c # cs) = (n * 10 + d) * 10 ^ length cs + dval cs"
    by (simp add: dval_Cons d_def algebra_simps)
  have ge: "n * 10 + d \<le> (n * 10 + d) * 10 ^ length cs + dval cs"
    by (simp add: trans_le_add1)
  show ?case
  proof (cases "n \<ge> maxUint64 div 10 + 1")
    case True
    then have "maxUint64 < n * 10 + d" by (simp add: maxUint64_def)
    with ge True show ?thesis unfolding tot by (simp add: dv)
  next
    case False
    show ?thesis
    proof (cases "n * 10 + d > maxUint64")
      case True
      with ge False show ?thesis unfolding tot by (simp add: dv)
    next
      case gt: False
      with False show ?thesis
        using Cons.IH [OF cs, of "n * 10 + d"] unfolding tot by (simp add: dv)
    qed
  qed
qed

lemma ParseUint_digits:
  "is_digits s \<Longrightarrow> s \<noteq> [] \<Longrightarrow>
     ParseUint s =
       (min (dval s) maxUint64, if dval s \<le> maxUint64 then None else Some ErrRange)"
  by (simp add: ParseUint_def ParseUint_loop_digits)

lemma hd_digits: "is_digits s \<Longrightarrow> s \<noteq> [] \<Longrightarrow> hd s \<noteq> CHR ''-'' \<and> hd s \<noteq> CHR ''+''"
  by (cases s) (simp_all add: digits_not_sign)

lemma ParseInt_digits:
  assumes "is_digits s" "s \<noteq> []"
  shows "fst (ParseInt s) = word_of_int (clamp64 (int (dval s)))"
proof -
  have hd: "hd s \<noteq> CHR ''-''" "hd s \<noteq> CHR ''+''" using hd_digits [OF assms] by simp_all
  show ?thesis
  proof (cases "dval s < 2 ^ 63")
    case True
    then have "ParseUint s = (dval s, None)"
      using assms by (simp add: ParseUint_digits maxUint64_def)
    moreover have "clamp64 (int (dval s)) = int (dval s)"
      using True by (simp add: clamp64_def MaxInt64_def MinInt64_def)
    ultimately show ?thesis using True assms(2) hd by (simp add: ParseInt_def)
  next
    case False
    define un where "un = min (dval s) maxUint64"
    define e where "e = (if dval s \<le> maxUint64 then None else Some ErrRange)"
    have u: "ParseUint s = (un, e)" "e \<noteq> Some ErrSyntax" "un \<ge> 2 ^ 63"
      using False assms by (simp_all add: ParseUint_digits un_def e_def maxUint64_def)
    have "clamp64 (int (dval s)) = MaxInt64"
      using False by (simp add: clamp64_def MaxInt64_def MinInt64_def)
    then show ?thesis using u assms(2) hd by (simp add: ParseInt_def)
  qed
qed

lemma ParseInt_minus_digits:
  assumes "is_digits s" "s \<noteq> []"
  shows "fst (ParseInt (CHR ''-'' # s)) = word_of_int (clamp64 (- int (dval s)))"
proof (cases "dval s \<le> 2 ^ 63")
  case True
  then have "ParseUint s = (dval s, None)"
    using assms by (simp add: ParseUint_digits maxUint64_def)
  moreover have "clamp64 (- int (dval s)) = - int (dval s)"
    using True by (simp add: clamp64_def MaxInt64_def MinInt64_def)
  ultimately show ?thesis using True by (simp add: ParseInt_def)
next
  case False
  define un where "un = min (dval s) maxUint64"
  define e where "e = (if dval s \<le> maxUint64 then None else Some ErrRange)"
  have u: "ParseUint s = (un, e)" "e \<noteq> Some ErrSyntax" "un > 2 ^ 63"
    using False assms by (simp_all add: ParseUint_digits un_def e_def maxUint64_def)
  have "clamp64 (- int (dval s)) = MinInt64"
    using False by (simp add: clamp64_def MaxInt64_def MinInt64_def)
  then show ?thesis using u by (simp add: ParseInt_def)
qed

section \<open>RoundInt computes the saturated half-up rounding\<close>

lemma finish_eq:
  assumes "is_digits t" "t \<noteq> []" "0 \<le> z" "z \<le> int (length t)"
  shows "finish x t z =
    Some (word_of_int (clamp64 ((if sint x < 0 then - 1 else 1) *
      int (dval (take (nat z) t) * 10 ^ (length t - nat z)))))"
proof -
  define t' where "t' = take (nat z) t @ replicate (length t - nat z) (CHR ''0'')"
  have zl: "zero_loop z t = Some t'"
    using assms(3,4) by (simp add: zero_loop_eq t'_def)
  have d: "is_digits t'"
    using assms(1) by (simp add: t'_def is_digits_take)
  have "length t' = length t"
    using assms(3,4) by (simp add: t'_def)
  then have ne: "t' \<noteq> []" using assms(2) by auto
  have v: "dval t' = dval (take (nat z) t) * 10 ^ (length t - nat z)"
    by (simp add: t'_def dval_append)
  show ?thesis
    using ParseInt_digits [OF d ne] ParseInt_minus_digits [OF d ne]
    by (simp add: finish_def zl v)
qed

lemma dval_split_digit:
  assumes "is_digits u" "u \<noteq> []"
  shows "dval u = nat (decimalInts (hd u)) * 10 ^ (length u - 1) + dval (tl u)"
    and "dval (tl u) < 10 ^ (length u - 1)"
    and "hd u \<in> set digits"
  using assms dval_less [of "tl u"] by (cases u; simp add: dval_Cons)+

lemma first_digit_small:
  assumes "is_digits u" "u \<noteq> []" "decimalInts (hd u) < 5"
  shows "dval u < 5 * 10 ^ (length u - 1)"
proof -
  have "nat (decimalInts (hd u)) \<le> 4" using assms(3) by simp
  then have "nat (decimalInts (hd u)) * 10 ^ (length u - 1) \<le> 4 * 10 ^ (length u - 1)"
    by (rule mult_le_mono1)
  then show ?thesis
    using dval_split_digit(1,2) [OF assms(1,2)] by linarith
qed

lemma first_digit_large:
  assumes "is_digits u" "u \<noteq> []" "\<not> decimalInts (hd u) < 5"
  shows "5 * 10 ^ (length u - 1) \<le> dval u"
proof -
  have "5 \<le> nat (decimalInts (hd u))" using assms(3) by simp
  then have "5 * 10 ^ (length u - 1) \<le> nat (decimalInts (hd u)) * 10 ^ (length u - 1)"
    by (rule mult_le_mono1)
  then show ?thesis
    using dval_split_digit(1) [OF assms(1,2)] by linarith
qed

lemma RoundInt_rounded:
  assumes "precision < 0"
  shows "RoundInt x precision = Some (word_of_int (clamp64 (rounded x precision)))"
proof -
  define n where "n = nat \<bar>sint x\<bar>"
  define s where "s = FormatUint n"
  define k where "k = nat (- precision)"
  define len where "len = length s"
  have k: "0 < k" "precision = - int k"
    using assms by (simp_all add: k_def)
  have p: "(10::nat) ^ k = 10 * 10 ^ (k - 1)"
    using k(1) by (cases k) simp_all
  have s: "is_digits s" "s \<noteq> []" "dval s = n" "0 < len"
    by (simp_all add: s_def len_def FormatUint_digits FormatUint_nonempty FormatUint_dval)
  have xs: "(if sint x < 0 then slice_from (FormatInt x) 1 else Some (FormatInt x)) = Some s"
    by (simp add: FormatInt_def slice_from_def s_def n_def abs_if)
  have sg: "clamp64 ((if sint x < 0 then - 1 else 1) * int (round_half_up n k))
      = clamp64 (rounded x precision)"
  proof (cases "sint x = 0")
    case True
    then have "n = 0" by (simp add: n_def)
    then have "round_half_up n k = 0"
      using round_half_up_down [OF k(1), of 0 0] by simp
    then show ?thesis by (simp add: rounded_def n_def k_def)
  next
    case False
    then show ?thesis by (simp add: rounded_def n_def k_def sgn_if)
  qed
  have fin: "finish x t z = Some (word_of_int (clamp64 (rounded x precision)))"
    if "is_digits t" "t \<noteq> []" "0 \<le> z" "z \<le> int (length t)"
      "dval (take (nat z) t) * 10 ^ (length t - nat z) = round_half_up n k" for t z
    using finish_eq [OF that(1-4), of x] sg by (simp only: that(5))
  have zero: "Some (0::int64) = Some (word_of_int (clamp64 (rounded x precision)))"
    if "round_half_up n k = 0"
  proof -
    have "clamp64 0 = 0" by (simp add: clamp64_def MaxInt64_def MinInt64_def)
    then have "clamp64 (rounded x precision) = 0" using sg that by simp
    then show ?thesis by simp
  qed
  have one: "is_digits (CHR ''1'' # s)" "CHR ''1'' # s \<noteq> []"
    "dval (take (nat 1) (CHR ''1'' # s)) * 10 ^ (length (CHR ''1'' # s) - nat 1) = 10 ^ len"
    using s(1) by (simp_all add: digits_cases dval_Cons decimalInts_def len_def)
  have R: "RoundInt x precision =
     (let roundFrom = int len + precision in
             if roundFrom < 0 then Some 0
             else if roundFrom = 0 then
               (case index s 0 of
                  None \<Rightarrow> None
                | Some c \<Rightarrow>
                    let firstDigit = decimalInts c in
                    if firstDigit < 5 then Some 0
                    else finish x (CHR ''1'' # s) 1)
             else
               (case index s roundFrom of
                  None \<Rightarrow> None
                | Some c \<Rightarrow>
                    let roundDigit = decimalInts c in
                    if roundDigit < 5 then finish x s roundFrom
                    else
                      (case carry_loop roundFrom s (-1) of
                         None \<Rightarrow> None
                       | Some (xslice', zeroFrom) \<Rightarrow>
                           if zeroFrom = -1 then finish x (CHR ''1'' # xslice') 1
                           else finish x xslice' zeroFrom)))"
    unfolding RoundInt_def Let_def xs len_def using assms by simp
  consider (a) "len < k" | (b) "len = k" | (c) "k < len" by linarith
  then show ?thesis
  proof cases
    case a
    have "(10::nat) ^ len \<le> 10 ^ (k - 1)"
      using a by (intro power_increasing) simp_all
    moreover have "n < 10 ^ len"
      using dval_less [OF s(1)] s(3) by (simp only: len_def)
    ultimately have "n < 5 * 10 ^ (k - 1)"
      by linarith
    then have "round_half_up n k = 0"
      using round_half_up_down [OF k(1), of n 0] by simp
    then show ?thesis
      using a zero unfolding R by (simp add: k(2))
  next
    case b
    have ix: "index s 0 = Some (hd s)"
      using s(2) by (cases s) (simp_all add: index_def)
    show ?thesis
    proof (cases "decimalInts (hd s) < 5")
      case True
      have "n < 5 * 10 ^ (k - 1)"
        using first_digit_small [OF s(1,2) True] s(3) b by (simp add: len_def)
      then have "round_half_up n k = 0"
        using round_half_up_down [OF k(1), of n 0] by simp
      then show ?thesis
        using b True zero unfolding R by (simp add: k(2) ix)
    next
      case False
      have "5 * 10 ^ (k - 1) \<le> n" "n < 10 ^ k"
        using first_digit_large [OF s(1,2) False] dval_less [OF s(1)] s(3) b
        by (simp_all add: len_def)
      then have "round_half_up n k = 10 ^ len"
        using round_half_up_up [OF k(1), of n 0] b by simp
      then have "finish x (CHR ''1'' # s) 1 = Some (word_of_int (clamp64 (rounded x precision)))"
        using one by (intro fin) simp_all
      then show ?thesis
        using b False unfolding R by (simp add: k(2) ix)
    qed
  next
    case c
    define r where "r = len - k"
    have r: "0 < r" "r < len" "int len + precision = int r" "len - r = k" "len = r + k"
      using c k(1) by (simp_all add: r_def k(2))
    define u where "u = drop r s"
    define A where "A = dval (take r s)"
    have u: "is_digits u" "u \<noteq> []" "length u = k" "hd u = s ! r"
      using s(1) r(2,4) by (simp_all add: u_def is_digits_drop len_def hd_drop_conv_nth)
    have n: "n = A * 10 ^ k + dval u"
      using dval_append [of "take r s" u] s(3) u(3) by (simp add: u_def A_def)
    have ix: "index s (int r) = Some (hd u)"
      using r(2) u(4) by (simp add: index_def len_def)
    show ?thesis
    proof (cases "decimalInts (hd u) < 5")
      case True
      have "dval u < 5 * 10 ^ (k - 1)"
        using first_digit_small [OF u(1,2) True] by (simp add: u(3))
      then have "round_half_up n k = A * 10 ^ k"
        unfolding n by (rule round_half_up_down [OF k(1)])
      then have "finish x s (int r) = Some (word_of_int (clamp64 (rounded x precision)))"
        using s(1,2) r(2,4) by (intro fin) (simp_all add: A_def len_def)
      then show ?thesis
        using r(1) True unfolding R by (simp add: r(3) ix)
    next
      case False
      have "5 * 10 ^ (k - 1) \<le> dval u" "dval u < 10 ^ k"
        using first_digit_large [OF u(1,2) False] dval_less [OF u(1)] by (simp_all add: u(3))
      then have up: "round_half_up n k = (A + 1) * 10 ^ k"
        unfolding n by (rule round_half_up_up [OF k(1)])
      have "(carry_loop (int r) s (-1) = Some (s, -1) \<and> dval (take (nat (int r)) s) + 1 = 10 ^ nat (int r)) \<or>
        (\<exists>s' z. carry_loop (int r) s (-1) = Some (s', z) \<and> 1 \<le> z \<and> z \<le> int r \<and>
          length s' = length s \<and> is_digits s' \<and>
          dval (take (nat z) s') * 10 ^ (nat (int r) - nat z) = dval (take (nat (int r)) s) + 1)"
        using s(1) r(2) by (intro carry_loop_spec) (simp_all add: len_def)
      then show ?thesis
      proof
        assume h: "carry_loop (int r) s (-1) = Some (s, -1) \<and>
          dval (take (nat (int r)) s) + 1 = 10 ^ nat (int r)"
        then have "A + 1 = 10 ^ r" by (simp add: A_def)
        then have "round_half_up n k = 10 ^ len"
          using up by (simp add: r(5) power_add)
        then have "finish x (CHR ''1'' # s) 1 = Some (word_of_int (clamp64 (rounded x precision)))"
          using one by (intro fin) simp_all
        then show ?thesis
          using r(1) False h unfolding R by (simp add: r(3) ix)
      next
        assume "\<exists>s' z. carry_loop (int r) s (-1) = Some (s', z) \<and> 1 \<le> z \<and> z \<le> int r \<and>
          length s' = length s \<and> is_digits s' \<and>
          dval (take (nat z) s') * 10 ^ (nat (int r) - nat z) = dval (take (nat (int r)) s) + 1"
        then obtain s' z where h: "carry_loop (int r) s (-1) = Some (s', z)" "1 \<le> z" "z \<le> int r"
          "length s' = length s" "is_digits s'"
          "dval (take (nat z) s') * 10 ^ (r - nat z) = A + 1"
          by (auto simp: A_def)
        have "length s' - nat z = (r - nat z) + k"
          using h(2,3,4) r(5) by (simp add: len_def)
        then have "dval (take (nat z) s') * 10 ^ (length s' - nat z) = (A + 1) * 10 ^ k"
          using h(6) by (simp add: power_add flip: mult.assoc)
        then have "finish x s' z = Some (word_of_int (clamp64 (rounded x precision)))"
          using h(2,3,4,5) s(2) r(2) up by (intro fin) (auto simp: len_def)
        then show ?thesis
          using r(1) False h(1,2) unfolding R by (simp add: r(3) ix)
      qed
    qed
  qed
qed

section \<open>Evaluation rules and the signed reading of the result\<close>

lemmas eval_simps = RoundInt_def finish_def FormatInt_def FormatUint.simps digits_def
  ParseInt_def ParseUint_def digit_val_def maxUint64_def upt_rec MaxInt64_def MinInt64_def
  zero_loop.simps carry_loop.simps index_def store_def slice_from_def decimalInts_def
  decimalBytes_def

lemma sint_word_of_int_64:
  "- (2^63) \<le> v \<Longrightarrow> v < 2^63 \<Longrightarrow> sint (word_of_int v :: 64 word) = v"
  by (simp add: sint_sbintrunc' signed_take_bit_int_eq_self)

lemma sint_range_64: "- (2^63) \<le> sint (x::64 word) \<and> sint x < 2^63"
  using sint_lt [of x] sint_ge [of x] by simp

lemma clamp64_range: "- (2^63) \<le> clamp64 v \<and> clamp64 v < 2^63"
  by (simp add: clamp64_def MaxInt64_def MinInt64_def)

lemma sint_clamp64: "sint (word_of_int (clamp64 v) :: 64 word) = clamp64 v"
  using clamp64_range [of v] by (simp add: sint_word_of_int_64)

lemma RoundInt_sint:
  "precision < 0 \<Longrightarrow>
     \<exists>r. RoundInt x precision = Some r \<and> sint r = clamp64 (rounded x precision)"
  by (simp add: RoundInt_rounded sint_clamp64)

lemma round_half_up_dvd: "10 ^ k dvd round_half_up n k"
  by (simp add: round_half_up_def)

lemma round_half_up_fix:
  assumes "0 < k" "10 ^ k dvd m"
  shows "round_half_up m k = m"
proof -
  from assms(2) obtain a where "m = a * 10 ^ k" by (auto simp: dvd_def mult.commute)
  then show ?thesis
    using round_half_up_down [OF assms(1), of 0 a] by simp
qed

lemma round_half_up_mono: "m \<le> n \<Longrightarrow> round_half_up m k \<le> round_half_up n k"
  unfolding round_half_up_def by (intro mult_le_mono1 div_le_mono) simp

lemma round_half_up_zero: "0 < k \<Longrightarrow> round_half_up 0 k = 0"
  using round_half_up_down [of k 0 0] by simp

lemma rounded_again:
  assumes "precision < 0" "sint r = clamp64 (rounded x precision)"
  shows "clamp64 (rounded r precision) = sint r"
proof -
  define k where "k = nat (- precision)"
  define n where "n = nat \<bar>sint x\<bar>"
  define R where "R = round_half_up n k"
  have k: "0 < k" using assms(1) by (simp add: k_def)
  have rx: "rounded x precision = sgn (sint x) * int R"
    by (simp add: rounded_def R_def n_def k_def)
  have rr: "rounded r precision = sgn (sint r) * int (round_half_up (nat \<bar>sint r\<bar>) k)"
    by (simp add: rounded_def k_def)
  have nb: "int n \<le> 2 ^ 63" "0 < sint x \<Longrightarrow> int n \<le> 2 ^ 63 - 1"
    using sint_range_64 [of x] by (simp_all add: n_def abs_if)
  consider (inr) "MinInt64 \<le> rounded x precision" "rounded x precision \<le> MaxInt64"
    | (hi) "MaxInt64 < rounded x precision" | (lo) "rounded x precision < MinInt64"
    by linarith
  then show ?thesis
  proof cases
    case inr
    then have w: "sint r = sgn (sint x) * int R"
      using assms(2) by (simp add: clamp64_def rx)
    have z: "sint x = 0 \<Longrightarrow> R = 0"
      using round_half_up_zero [OF k] by (simp add: R_def n_def)
    have abs: "nat \<bar>sint r\<bar> = R"
      using z by (cases "sint x = 0") (simp_all add: w abs_mult abs_sgn_eq)
    have "round_half_up R k = R"
      using k round_half_up_dvd [of k n] by (intro round_half_up_fix) (simp_all add: R_def)
    then have "rounded r precision = sgn (sint r) * int R"
      by (simp add: rr abs)
    also have "\<dots> = sint r"
      using z by (cases "R = 0") (auto simp: w sgn_mult sgn_if)
    finally have "rounded r precision = sint r" .
    then show ?thesis
      using sint_range_64 [of r] by (simp add: clamp64_def MaxInt64_def MinInt64_def)
  next
    case hi
    then have pos: "0 < sint x" and big: "MaxInt64 < int R"
      using rx by (auto simp: sgn_if MaxInt64_def split: if_splits)
    have w: "sint r = MaxInt64"
      using hi assms(2) by (simp add: clamp64_def MaxInt64_def MinInt64_def)
    have "n \<le> nat \<bar>sint r\<bar>"
      using nb(2) [OF pos] by (simp add: w MaxInt64_def le_nat_iff)
    then have "R \<le> round_half_up (nat \<bar>sint r\<bar>) k"
      unfolding R_def by (rule round_half_up_mono)
    then have "MaxInt64 < rounded r precision"
      using big by (simp add: rr w MaxInt64_def)
    then show ?thesis
      by (simp add: clamp64_def w MaxInt64_def MinInt64_def)
  next
    case lo
    then have neg: "sint x < 0" and big: "int R > 2 ^ 63"
      using rx by (auto simp: sgn_if MinInt64_def split: if_splits)
    have w: "sint r = MinInt64"
      using lo assms(2) by (simp add: clamp64_def MaxInt64_def MinInt64_def)
    have "n \<le> nat \<bar>sint r\<bar>"
      using nb(1) by (simp add: w MinInt64_def le_nat_iff)
    then have "R \<le> round_half_up (nat \<bar>sint r\<bar>) k"
      unfolding R_def by (rule round_half_up_mono)
    then have "rounded r precision < MinInt64"
      using big by (simp add: rr w MinInt64_def)
    then show ?thesis
      by (simp add: clamp64_def w MaxInt64_def MinInt64_def)
  qed
qed

lemma rounded_max: "rounded 9223372036854775807 (-1) = 9223372036854775810"
  by (simp add: rounded_def round_half_up_def)

lemma rounded_min: "rounded (-9223372036854775808) (-1) = -9223372036854775810"
  by (simp add: rounded_def round_half_up_def)

section \<open>The loops of FormatThousands\<close>

lemma replicate_numeral: "replicate (numeral k) x = x # replicate (pred_numeral k) x"
  by (simp add: numeral_eq_Suc)

lemma list_update_Cons_numeral: "(x # xs)[numeral k := y] = x # xs[pred_numeral k := y]"
  by (simp add: numeral_eq_Suc)

lemmas format_simps = FormatThousands_def FormatInt_def FormatUint.simps digits_def quo_def
  batch_loop.simps copy3.simps rest_loop.simps index_def store_def replicate_numeral
  list_update_Cons_numeral

lemma store_last:
  assumes "length pre = Suc n" "j = int n"
  shows "store (pre @ w) j v = Some (take n pre @ v # w)"
proof -
  have a: "take (Suc n) pre = take n pre @ [pre ! n]"
    by (rule take_Suc_conv_app_nth) (simp add: assms(1))
  have b: "take (Suc n) pre = pre"
    by (simp add: assms(1))
  have p: "pre = take n pre @ [pre ! n]"
    using a unfolding b .
  have "(take n pre @ pre ! n # [])[length (take n pre) := v] = take n pre @ v # []"
    by (rule list_update_length)
  then have "pre[n := v] = take n pre @ [v]"
    using assms(1) p by simp
  then have "(pre @ w)[n := v] = take n pre @ v # w"
    using assms(1) by (simp add: list_update_append1)
  then show ?thesis using assms by (simp add: store_def)
qed

lemma rest_loop_eq:
  "length pre = n \<Longrightarrow> n \<le> length xs \<Longrightarrow>
     rest_loop xs (pre @ w, int n - 1, int n - 1) = Some (take n xs @ w)"
proof (induction n arbitrary: pre w)
  case 0
  then show ?case by (subst rest_loop.simps) simp
next
  case (Suc n)
  have ix: "index xs (int n) = Some (xs ! n)"
    using Suc.prems(2) by (simp add: index_def)
  have st: "store (pre @ w) (int n) (xs ! n) = Some (take n pre @ xs ! n # w)"
    using Suc.prems(1) by (rule store_last) simp
  have "rest_loop xs (take n pre @ xs ! n # w, int n - 1, int n - 1) =
      Some (take n xs @ xs ! n # w)"
    using Suc.prems by (intro Suc.IH) simp_all
  moreover have "take (Suc n) xs = take n xs @ [xs ! n]"
    using Suc.prems(2) by (simp add: take_Suc_conv_app_nth)
  ultimately show ?case
    by (subst rest_loop.simps) (simp add: ix st)
qed

lemma copy3_step:
  assumes "l < 3" "index xs i = Some c" "store f j c = Some f'"
    and "l' = l + 1" "i' = i - 1" "j' = j - 1"
  shows "copy3 l xs (f, i, j) = copy3 l' xs (f', i', j')"
  using assms by (subst copy3.simps) simp

lemma batch_step:
  assumes "k < commas" "copy3 0 xs st = Some (f, i, j)" "store f j (CHR '','') = Some f'"
    and "k' = k + 1" "j' = j - 1"
  shows "batch_loop k commas xs st = batch_loop k' commas xs (f', i, j')"
  using assms by (subst batch_loop.simps) simp

lemma copy3_eq:
  assumes "length pre = m + 3" "n + 3 \<le> length xs"
  shows "copy3 0 xs (pre @ w, int n + 2, int m + 2) =
    Some (take m pre @ xs ! n # xs ! (n + 1) # xs ! (n + 2) # w, int n - 1, int m - 1)"
proof -
  have i2: "index xs (int n + 2) = Some (xs ! (n + 2))"
    and i1: "index xs (int n + 1) = Some (xs ! (n + 1))"
    and i0: "index xs (int n) = Some (xs ! n)"
    using assms(2) by (simp_all add: index_def nat_add_distrib)
  have s2: "store (pre @ w) (int m + 2) (xs ! (n + 2)) = Some (take (m + 2) pre @ xs ! (n + 2) # w)"
    using assms(1) by (intro store_last) simp_all
  have s1: "store (take (m + 2) pre @ xs ! (n + 2) # w) (int m + 1) (xs ! (n + 1)) =
      Some (take (m + 1) (take (m + 2) pre) @ xs ! (n + 1) # xs ! (n + 2) # w)"
    using assms(1) by (intro store_last) simp_all
  have s0: "store (take (m + 1) pre @ xs ! (n + 1) # xs ! (n + 2) # w) (int m) (xs ! n) =
      Some (take m (take (m + 1) pre) @ xs ! n # xs ! (n + 1) # xs ! (n + 2) # w)"
    using assms(1) by (intro store_last) simp_all
  have t1: "take (m + 1) (take (m + 2) pre) = take (m + 1) pre"
    and t0: "take m (take (m + 1) pre) = take m pre"
    by (simp_all add: min_def)
  note s1' = s1 [unfolded t1] and s0' = s0 [unfolded t0]
  have "copy3 0 xs (pre @ w, int n + 2, int m + 2) =
      copy3 1 xs (take (m + 2) pre @ xs ! (n + 2) # w, int n + 1, int m + 1)"
    by (rule copy3_step [OF _ i2 s2]) simp_all
  also have "\<dots> = copy3 2 xs (take (m + 1) pre @ xs ! (n + 1) # xs ! (n + 2) # w, int n, int m)"
    by (rule copy3_step [OF _ i1 s1']) simp_all
  also have "\<dots> = copy3 3 xs (take m pre @ xs ! n # xs ! (n + 1) # xs ! (n + 2) # w,
      int n - 1, int m - 1)"
    by (rule copy3_step [OF _ i0 s0']) simp_all
  also have "\<dots> = Some (take m pre @ xs ! n # xs ! (n + 1) # xs ! (n + 2) # w,
      int n - 1, int m - 1)"
    by (subst copy3.simps) simp
  finally show ?thesis .
qed

lemma rev_take3:
  assumes "n + 3 \<le> length xs"
  shows "rev (take (n + 3) xs) = xs ! (n + 2) # xs ! (n + 1) # xs ! n # rev (take n xs)"
proof -
  have "take (n + 3) xs = take n xs @ [xs ! n, xs ! (n + 1), xs ! (n + 2)]"
    using assms by (simp add: take_Suc_conv_app_nth numeral_3_eq_3)
  then show ?thesis by simp
qed

lemma loops_eq:
  "length pre = n + c \<Longrightarrow> 3 * c \<le> n \<Longrightarrow> n \<le> length xs \<Longrightarrow> k + int c = commas \<Longrightarrow>
     (case batch_loop k commas xs (pre @ w, int n - 1, int (n + c) - 1) of
        None \<Rightarrow> None
      | Some st \<Rightarrow> rest_loop xs st) = Some (rev (emit c (rev (take n xs))) @ w)"
proof (induction c arbitrary: pre n k w)
  case 0
  then have "batch_loop k commas xs (pre @ w, int n - 1, int (n + 0) - 1) =
      Some (pre @ w, int n - 1, int n - 1)"
    by (subst batch_loop.simps) simp
  then show ?case
    using 0 by (simp add: rest_loop_eq)
next
  case (Suc c)
  define n' where "n' = n - 3"
  have n: "n = n' + 3" "3 * c \<le> n'"
    using Suc.prems(2) by (simp_all add: n'_def)
  define m where "m = n' + c + 1"
  have len: "length pre = m + 3" using Suc.prems(1) by (simp add: n m_def)
  have xs: "n' + 3 \<le> length xs" using Suc.prems(3) by (simp add: n)
  let ?w3 = "xs ! n' # xs ! (n' + 1) # xs ! (n' + 2) # w"
  have c3: "copy3 0 xs (pre @ w, int n - 1, int (n + Suc c) - 1) =
      Some (take m pre @ ?w3, int n' - 1, int m - 1)"
    using copy3_eq [OF len xs, of w] by (simp add: n m_def algebra_simps)
  have st: "store (take m pre @ ?w3) (int m - 1) (CHR '','') =
      Some (take (n' + c) pre @ CHR '','' # ?w3)"
  proof -
    have "store (take m pre @ ?w3) (int m - 1) (CHR '','') =
        Some (take (n' + c) (take m pre) @ CHR '','' # ?w3)"
      using len by (intro store_last) (simp_all add: m_def)
    then show ?thesis by (simp add: m_def)
  qed
  have step: "batch_loop k commas xs (pre @ w, int n - 1, int (n + Suc c) - 1) =
      batch_loop (k + 1) commas xs (take (n' + c) pre @ CHR '','' # ?w3, int n' - 1,
        int (n' + c) - 1)"
    using Suc.prems(4) by (intro batch_step [OF _ c3 st]) (simp_all add: m_def)
  have "(case batch_loop (k + 1) commas xs (take (n' + c) pre @ CHR '','' # ?w3, int n' - 1,
        int (n' + c) - 1) of None \<Rightarrow> None | Some st \<Rightarrow> rest_loop xs st) =
      Some (rev (emit c (rev (take n' xs))) @ CHR '','' # ?w3)"
    using len n(2) xs Suc.prems(4) by (intro Suc.IH) (simp_all add: m_def)
  moreover have "rev (emit (Suc c) (rev (take n xs))) @ w =
      rev (emit c (rev (take n' xs))) @ CHR '','' # ?w3"
    unfolding n(1) rev_take3 [OF xs] by simp
  ultimately show ?case by (simp only: step)
qed

lemma emit_group3_rev: "emit ((length r - 1) div 3) (r @ t) = group3_rev r @ t"
proof (induction r rule: group3_rev.induct)
  case (1 a b c d ds)
  have "(length (a # b # c # d # ds) - 1) div 3 = Suc ((length (d # ds) - 1) div 3)"
    by simp
  then show ?case using 1 by simp
qed simp_all

lemma quo_nonneg: "quo (int a) 3 = int (a div 3)"
  by (cases "a = 0") (simp_all add: quo_def zdiv_int)

section \<open>Computing with float64 values\<close>

lemmas round64_defs = round64_def ilog2_def round_half_even_def dyadic_def Let_def

lemma bitlen_1 [simp]: "bitlen (Suc 0) = Suc 0"
  by (simp add: bitlen.simps)

text \<open>Single steps of the computations below.\<close>

lemma Modf_minus_06:
  "Modf (Finite True 5404319552844595 (-53)) = (Finite True 0 0, Finite True 5404319552844595 (-53))"
  unfolding Modf_def dyadic_def by (simp add: norm2.simps)

lemma int64_of_minus_zero: "int64_of_float64 (Finite True 0 0) = Some 0"
  unfolding int64_of_float64_def trunc_nat_def Let_def by (simp add: MaxInt64_def MinInt64_def)

lemma float64_of_int64_zero: "float64_of_int64 0 = Finite False 0 0"
  unfolding float64_of_int64_def float64_of_int_def round64_def by simp

lemma RoundInt_zero: "RoundInt 0 (-1) = Some 0"
  by (simp add: eval_simps)

lemma RoundFloat_minus_06: "RoundFloat (Finite True 5404319552844595 (-53)) (-1) = Some (Finite False 0 0)"
  unfolding RoundFloat_def
  by (simp add: Modf_minus_06 int64_of_minus_zero RoundInt_zero float64_of_int64_zero)

lemma half_even_05: "round_half_even (Suc 0) 2 = 0"
  unfolding round_half_even_def Let_def by simp

lemma FormatFloat_05: "FormatFloat_f (Finite False 1 (-1)) 0 = ''0''"
  unfolding FormatFloat_f_def Let_def by (simp add: half_even_05 FormatUint.simps digits_def)

lemma ParseFloat_0: "ParseFloat ''0'' = Some (Finite False 0 0, None)"
  unfolding ParseFloat_def decimal_value_def round64_def Let_def
  by (simp add: digits_def digit_val_def upt_rec)

lemma RoundFloat_05: "RoundFloat (Finite False 1 (-1)) 0 = Some (Finite False 0 0)"
  unfolding RoundFloat_def Let_def by (simp add: FormatFloat_05 ParseFloat_0 del: One_nat_def)

lemma half_even_55555: "round_half_even 781867116558024700 140737488355328 = 5555"
  unfolding round_half_even_def Let_def by simp

lemma FormatFloat_55555: "FormatFloat_f (Finite False 7818671165580247 (-47)) 2 = ''55.55''"
  unfolding FormatFloat_f_def Let_def by (simp add: half_even_55555 FormatUint.simps digits_def)

lemma round64_5555:
  "round64 False 5555 100 = Finite False 3908983739069235 (-46)"
  unfolding round64_defs by (simp add: bitlen.simps norm2.simps)

lemma ParseFloat_5555: "ParseFloat ''55.55'' = Some (Finite False 3908983739069235 (-46), None)"
  unfolding ParseFloat_def decimal_value_def Let_def
  by (simp add: digits_def digit_val_def upt_rec round64_5555)

lemma round64_05: "round64 False 5 10 = Finite False 1 (-1)"
  unfolding round64_defs by (simp add: bitlen.simps norm2.simps)

lemma decimal_value_05: "decimal_value ''05'' = 5"
  by (simp add: decimal_value_def digits_def digit_val_def upt_rec)

lemma ParseFloat_05: "ParseFloat ''0.5'' = Some (Finite False 1 (-1), None)"
  unfolding ParseFloat_def Let_def
  by (simp add: digits_def decimal_value_05 round64_05 del: One_nat_def)

lemma round64_55555: "round64 False 55555 1000 = Finite False 7818671165580247 (-47)"
  unfolding round64_defs by (simp add: bitlen.simps norm2.simps)

lemma ParseFloat_55555:
  "ParseFloat ''55.555'' = Some (Finite False 7818671165580247 (-47), None)"
  unfolding ParseFloat_def decimal_value_def Let_def
  by (simp add: digits_def digit_val_def upt_rec round64_55555)

lemma round64_5556: "round64 False 5556 100 = Finite False 977421856627753 (-44)"
  unfolding round64_defs by (simp add: bitlen.simps norm2.simps)

lemma ParseFloat_5556: "ParseFloat ''55.56'' = Some (Finite False 977421856627753 (-44), None)"
  unfolding ParseFloat_def decimal_value_def Let_def
  by (simp add: digits_def digit_val_def upt_rec round64_5556)

lemma RoundFloat_55555:
  "RoundFloat (Finite False 7818671165580247 (-47)) 2 = Some (Finite False 3908983739069235 (-46))"
  unfolding RoundFloat_def Let_def by (simp add: FormatFloat_55555 ParseFloat_5555)

lemma float64_of_int_0: "float64_of_int 0 = Finite False 0 0"
  unfolding float64_of_int_def round64_def by simp

lemma float64_of_int_2: "float64_of_int 2 = Finite False 1 1"
  unfolding float64_of_int_def round64_defs by (simp add: bitlen.simps norm2.simps)

lemma Pow10_0: "Pow10 (Finite False 0 0) = Some (Finite False 1 0)"
  unfolding Pow10_def by simp

lemma Pow10_2: "Pow10 (Finite False 1 1) = Some (Finite False 25 2)"
  unfolding Pow10_def dyadic_def Let_def by (simp add: norm2.simps)

lemma round64_05_1: "round64 False 1 2 = Finite False 1 (-1)"
  unfolding round64_defs by (simp add: bitlen.simps norm2.simps)

lemma fmul_05_1: "fmul (Finite False 1 (-1)) (Finite False 1 0) = Finite False 1 (-1)"
  unfolding fmul_def by (simp add: round64_05_1 del: One_nat_def)

lemma Modf_05: "Modf (Finite False 1 (-1)) = (Finite False 0 0, Finite False 1 (-1))"
  unfolding Modf_def dyadic_def by (simp add: norm2.simps)

lemma ge_half_05: "ge_half (Finite False 1 (-1))"
  unfolding ge_half_def by simp

lemma Ceil_05: "Ceil (Finite False 1 (-1)) = Finite False 1 0"
  unfolding Ceil_def dyadic_def by (simp add: norm2.simps)

lemma round64_1_1: "round64 False 1 1 = Finite False 1 0"
  unfolding round64_defs by (simp add: bitlen.simps norm2.simps)

lemma fdiv_1_1: "fdiv (Finite False 1 0) (Finite False 1 0) = Finite False 1 0"
  unfolding fdiv_def by (simp add: round64_1_1 del: One_nat_def)

lemma RoundFloat_scaling_05: "RoundFloat_scaling (Finite False 1 (-1)) 0 = Some (Finite False 1 0)"
  unfolding RoundFloat_scaling_def Let_def
  by (simp add: float64_of_int_0 Pow10_0 Abs_def fmul_05_1 Modf_05 ge_half_05 Ceil_05 fdiv_1_1
      Copysign_def Signbit_def del: One_nat_def)

lemma round64_55555_100: "round64 False 195466779139506175 35184372088832 = Finite False 11111 (-1)"
  unfolding round64_defs by (simp add: bitlen.simps norm2.simps)

lemma fmul_55555_100:
  "fmul (Finite False 7818671165580247 (-47)) (Finite False 25 2) = Finite False 11111 (-1)"
  unfolding fmul_def by (simp add: round64_55555_100 del: One_nat_def)

lemma Modf_55555: "Modf (Finite False 11111 (-1)) = (Finite False 5555 0, Finite False 1 (-1))"
  unfolding Modf_def dyadic_def by (simp add: norm2.simps)

lemma Ceil_55555: "Ceil (Finite False 11111 (-1)) = Finite False 1389 2"
  unfolding Ceil_def dyadic_def by (simp add: norm2.simps)

lemma round64_5556_100: "round64 False 1389 25 = Finite False 977421856627753 (-44)"
  unfolding round64_defs by (simp add: bitlen.simps norm2.simps)

lemma fdiv_5556_100:
  "fdiv (Finite False 1389 2) (Finite False 25 2) = Finite False 977421856627753 (-44)"
  unfolding fdiv_def by (simp add: round64_5556_100 del: One_nat_def)

lemma RoundFloat_scaling_55555:
  "RoundFloat_scaling (Finite False 7818671165580247 (-47)) 2 =
     Some (Finite False 977421856627753 (-44))"
  unfolding RoundFloat_scaling_def Let_def
  by (simp add: float64_of_int_2 Pow10_2 Abs_def fmul_55555_100 Modf_55555 ge_half_05 Ceil_55555
      fdiv_5556_100 Copysign_def Signbit_def del: One_nat_def)







section \<open>Exact conversions\<close>









section \<open>Non-negative precision\<close>



section \<open>Test vectors\<close>

text \<open>
  C2.  The carry-cascade and sign test vectors: \<open>RoundInt(999, -1) = 1000\<close>,
  \<open>RoundInt(995, -1) = 1000\<close>, \<open>RoundInt(994, -1) = 990\<close> and
  \<open>RoundInt(-555, -2) = -600\<close>.
\<close>

theorem RoundInt_test_vectors:
  "RoundInt 999 (-1) = Some 1000 \<and> RoundInt 995 (-1) = Some 1000 \<and>
   RoundInt 994 (-1) = Some 990 \<and> RoundInt (-555) (-2) = Some (-600)"
  by (simp add: eval_simps)

section \<open>Saturation\<close>

text \<open>
  C9.  When the value rounded half up lies above \<open>MaxInt64\<close> the function returns
  \<open>MaxInt64\<close>, and when it lies below \<open>MinInt64\<close> it returns \<open>MinInt64\<close>:
  the range error of \<open>ParseInt\<close> is dropped and its clamped value is the result.
  The function returns a value in both cases (no panic).
\<close>

theorem RoundInt_saturates:
  assumes "precision < 0"
  shows "(MaxInt64 < rounded x precision \<longrightarrow> RoundInt x precision = Some (word_of_int MaxInt64)) \<and>
         (rounded x precision < MinInt64 \<longrightarrow> RoundInt x precision = Some (word_of_int MinInt64))"
  using assms by (simp add: RoundInt_rounded clamp64_def MaxInt64_def MinInt64_def)

text \<open>
  The example of the claim, \<open>RoundInt(9223372036854775807, -1)\<close>, where the carry
  gives the 19-digit string 9223372036854775810, and its mirror image at the least value.
\<close>

theorem RoundInt_saturates_witness:
  "(-1::int) < 0 \<and> MaxInt64 < rounded 9223372036854775807 (-1) \<and>
     RoundInt 9223372036854775807 (-1) = Some 9223372036854775807 \<and>
   rounded (-9223372036854775808) (-1) < MinInt64 \<and>
     RoundInt (-9223372036854775808) (-1) = Some (-9223372036854775808)"
  using RoundInt_saturates [of "-1" 9223372036854775807]
    RoundInt_saturates [of "-1" "-9223372036854775808"]
  by (simp add: rounded_max rounded_min MaxInt64_def MinInt64_def)

section \<open>The result is a multiple of the power of ten\<close>

text \<open>
  C1, as stated, fails where the result saturates: \<open>RoundInt(9223372036854775807, -1)\<close>
  is \<open>9223372036854775807\<close>, which is not a multiple of ten.
\<close>

theorem RoundInt_multiple_counterexample:
  "RoundInt 9223372036854775807 (-1) = Some 9223372036854775807 \<and>
   \<not> (10::int) ^ nat (- (-1)) dvd \<bar>sint (9223372036854775807 :: int64)\<bar>"
  by (simp add: eval_simps)

text \<open>
  C1, amended.  For every \<open>int64\<close> value \<open>x\<close> and every negative precision for
  which the value rounded half up fits the \<open>int64\<close> range, the magnitude of
  \<open>RoundInt(x, precision)\<close> is an exact multiple of \<open>10 ^ (-precision)\<close>.
\<close>

theorem RoundInt_multiple_in_range:
  assumes "precision < 0" "MinInt64 \<le> rounded x precision" "rounded x precision \<le> MaxInt64"
  shows "\<exists>r. RoundInt x precision = Some r \<and> 10 ^ nat (- precision) dvd \<bar>sint r\<bar>"
proof -
  obtain r where r: "RoundInt x precision = Some r" "sint r = clamp64 (rounded x precision)"
    using RoundInt_sint [OF assms(1)] by blast
  have "sint r = rounded x precision"
    using assms(2,3) by (simp add: r(2) clamp64_def)
  moreover have "(10::int) ^ nat (- precision) dvd
      int (round_half_up (nat \<bar>sint x\<bar>) (nat (- precision)))"
    using round_half_up_dvd [of "nat (- precision)" "nat \<bar>sint x\<bar>"]
    by (metis of_nat_dvd_iff of_nat_numeral of_nat_power)
  ultimately have "10 ^ nat (- precision) dvd \<bar>sint r\<bar>"
    by (simp add: rounded_def)
  with r(1) show ?thesis by blast
qed

theorem RoundInt_multiple_in_range_witness:
  "(-2::int) < 0 \<and> MinInt64 \<le> rounded (-555) (-2) \<and> rounded (-555) (-2) \<le> MaxInt64 \<and>
   (\<exists>r. RoundInt (-555) (-2) = Some r \<and> 10 ^ nat (- (-2)) dvd \<bar>sint r\<bar>)"
proof -
  have v: "rounded (-555) (-2) = -600"
    by (simp add: rounded_def round_half_up_def)
  show ?thesis
    using RoundInt_multiple_in_range [of "-2" "-555"]
    by (simp add: v MaxInt64_def MinInt64_def)
qed

section \<open>Rounding to the order of magnitude above the leading digit\<close>

text \<open>
  C3, as stated, fails for a 19-digit value whose leading digit is at least five:
  \<open>10 ^ 19\<close> is not an \<open>int64\<close> value, and
  \<open>RoundInt(5000000000000000000, -19)\<close> is \<open>MaxInt64\<close>.
\<close>

theorem RoundInt_collapse_counterexample:
  "(10::int) ^ (nat (- (-19)) - 1) \<le> \<bar>sint (5000000000000000000 :: int64)\<bar> \<and>
   \<bar>sint (5000000000000000000 :: int64)\<bar> < 10 ^ nat (- (-19)) \<and>
   \<not> \<bar>sint (5000000000000000000 :: int64)\<bar> div 10 ^ (nat (- (-19)) - 1) < 5 \<and>
   RoundInt 5000000000000000000 (-19) = Some 9223372036854775807 \<and>
   sint (9223372036854775807 :: int64) \<noteq> sgn (sint (5000000000000000000 :: int64)) * 10 ^ nat (- (-19))"
  by (simp add: eval_simps)

text \<open>
  C3, amended.  For every nonzero \<open>x\<close> and negative precision such that \<open>-precision\<close>
  is the number of decimal digits of \<open>|x|\<close> (that is,
  \<open>10 ^ (-precision - 1) \<le> |x| < 10 ^ (-precision)\<close>), the result is \<open>0\<close> when the
  leading digit of \<open>|x|\<close> is less than five, and otherwise \<open>10 ^ (-precision)\<close>
  with the sign of \<open>x\<close>, saturated to the \<open>int64\<close> range.
\<close>

theorem RoundInt_collapse:
  assumes "precision < 0"
    and "10 ^ (nat (- precision) - 1) \<le> \<bar>sint x\<bar>"
    and "\<bar>sint x\<bar> < 10 ^ nat (- precision)"
  shows "\<exists>r. RoundInt x precision = Some r \<and>
    sint r = (if \<bar>sint x\<bar> div 10 ^ (nat (- precision) - 1) < 5 then 0
              else clamp64 (sgn (sint x) * 10 ^ nat (- precision)))"
proof -
  define k where "k = nat (- precision)"
  define n where "n = nat \<bar>sint x\<bar>"
  have k: "0 < k" using assms(1) by (simp add: k_def)
  have n: "\<bar>sint x\<bar> = int n" by (simp add: n_def)
  have lt: "n < 10 ^ k"
    using assms(3) unfolding n k_def [symmetric]
    by (metis of_nat_less_iff of_nat_numeral of_nat_power)
  have "\<bar>sint x\<bar> div 10 ^ (k - 1) = int (n div 10 ^ (k - 1))"
    unfolding n by (simp add: zdiv_int)
  then have dv: "(\<bar>sint x\<bar> div 10 ^ (k - 1) < 5) = (n div 10 ^ (k - 1) < 5)"
    by simp
  obtain r where r: "RoundInt x precision = Some r" "sint r = clamp64 (rounded x precision)"
    using RoundInt_sint [OF assms(1)] by blast
  have rx: "rounded x precision = sgn (sint x) * int (round_half_up n k)"
    by (simp add: rounded_def n_def k_def)
  have "sint r = (if \<bar>sint x\<bar> div 10 ^ (k - 1) < 5 then 0
              else clamp64 (sgn (sint x) * 10 ^ k))"
  proof (cases "n div 10 ^ (k - 1) < 5")
    case True
    then have "n < 5 * 10 ^ (k - 1)"
      by (simp add: div_less_iff_less_mult)
    then have "round_half_up n k = 0"
      using round_half_up_down [OF k, of n 0] by simp
    then show ?thesis
      unfolding dv using True by (simp add: r(2) rx clamp64_def MaxInt64_def MinInt64_def)
  next
    case False
    then have "5 * 10 ^ (k - 1) \<le> n"
      by (simp add: div_less_iff_less_mult not_less)
    then have "round_half_up n k = 10 ^ k"
      using round_half_up_up [OF k _ lt, of 0] by simp
    then show ?thesis
      unfolding dv using False by (simp add: r(2) rx)
  qed
  with r(1) show ?thesis by (auto simp: k_def)
qed

text \<open>The two instances named by the claim: \<open>RoundInt(5, -1) = 10\<close> and \<open>RoundInt(4, -1) = 0\<close>.\<close>

theorem RoundInt_collapse_witness:
  "(-1::int) < 0 \<and> 10 ^ (nat (- (-1)) - 1) \<le> \<bar>sint (5 :: int64)\<bar> \<and>
   \<bar>sint (5 :: int64)\<bar> < 10 ^ nat (- (-1)) \<and>
   (\<exists>r. RoundInt 5 (-1) = Some r \<and> sint r = 10) \<and>
   (\<exists>r. RoundInt 4 (-1) = Some r \<and> sint r = 0)"
  using RoundInt_collapse [of "-1" 5] RoundInt_collapse [of "-1" 4]
  by (simp add: clamp64_def MaxInt64_def MinInt64_def)

section \<open>Idempotence\<close>

text \<open>
  C5.  For every \<open>int64\<close> value \<open>x\<close> and every precision, \<open>RoundInt\<close> returns a
  value, and rounding that value again at the same precision returns it unchanged.
\<close>

theorem RoundInt_idempotent:
  "\<exists>r. RoundInt x precision = Some r \<and> RoundInt r precision = Some r"
proof (cases "precision < 0")
  case False
  then show ?thesis by (simp add: RoundInt_def)
next
  case True
  obtain r where r: "RoundInt x precision = Some r" "sint r = clamp64 (rounded x precision)"
    using RoundInt_sint [OF True] by blast
  obtain r' where r': "RoundInt r precision = Some r'" "sint r' = clamp64 (rounded r precision)"
    using RoundInt_sint [OF True] by blast
  have "sint r' = sint r"
    using rounded_again [OF True r(2)] r'(2) by simp
  then have "r' = r" by (simp add: signed_word_eqI)
  with r(1) r'(1) show ?thesis by simp
qed

section \<open>Thousands separators\<close>

text \<open>
  C8.  For every \<open>int64\<close> value \<open>x\<close>, \<open>FormatThousands(x)\<close> returns (without
  panic) the decimal digit string of \<open>|x|\<close> with a comma inserted every three digits
  counted from the least significant digit, after a minus sign exactly when \<open>x\<close> is
  negative; in particular \<open>FormatThousands(-1234) = "-1,234"\<close> and
  \<open>FormatThousands(0) = "0"\<close>.
\<close>

theorem FormatThousands_grouped:
  "FormatThousands x =
     Some ((if sint x < 0 then ''-'' else []) @ group_thousands (FormatUint (nat \<bar>sint x\<bar>)))
   \<and> FormatThousands (-1234) = Some ''-1,234'' \<and> FormatThousands 0 = Some ''0''"
proof -
  define s where "s = (if sint x < 0 then ''-'' else [])"
  define ds where "ds = FormatUint (nat \<bar>sint x\<bar>)"
  define c where "c = (length ds - 1) div 3"
  define lenx where "lenx = length (s @ ds)"
  have ds: "ds \<noteq> []" by (simp add: ds_def FormatUint_nonempty)
  have xs: "FormatInt x = s @ ds"
    by (simp add: FormatInt_def s_def ds_def abs_if)
  have "int lenx - 2 = int (length ds - 1)" if "sint x < 0"
    using that ds by (cases ds) (simp_all add: lenx_def s_def)
  moreover have "int lenx - 1 = int (length ds - 1)" if "\<not> sint x < 0"
    using that ds by (cases ds) (simp_all add: lenx_def s_def)
  ultimately have commas:
    "(if sint x < 0 then quo (int lenx - 2) 3 else quo (int lenx - 1) 3) = int c"
    by (simp add: quo_nonneg c_def)
  have c3: "3 * c \<le> lenx"
    by (simp add: c_def lenx_def)
  have "(case batch_loop 0 (int c) (s @ ds)
        (replicate (lenx + c) (CHR 0x00) @ [], int lenx - 1, int (lenx + c) - 1) of
        None \<Rightarrow> None
      | Some st \<Rightarrow> rest_loop (s @ ds) st) =
      Some (rev (emit c (rev (take lenx (s @ ds)))) @ [])"
    using c3 by (intro loops_eq) (simp_all add: lenx_def)
  moreover have "rev (emit c (rev (take lenx (s @ ds)))) = s @ group_thousands ds"
    using emit_group3_rev [of "rev ds" "rev s"]
    by (simp add: lenx_def c_def group_thousands_def)
  ultimately have run: "(case batch_loop 0 (int c) (s @ ds)
        (replicate (lenx + c) (CHR 0x00), int lenx - 1, int (lenx + c) - 1) of
        None \<Rightarrow> None
      | Some st \<Rightarrow> rest_loop (s @ ds) st) = Some (s @ group_thousands ds)"
    by simp
  have "FormatThousands x = Some (s @ group_thousands ds)"
    unfolding FormatThousands_def Let_def xs lenx_def [symmetric] commas
    using run by (simp add: nat_add_distrib)
  moreover have "FormatThousands (-1234) = Some ''-1,234''"
    by (simp add: format_simps)
  moreover have "FormatThousands 0 = Some ''0''"
    by (simp add: format_simps)
  ultimately show ?thesis
    by (simp add: s_def ds_def)
qed

section \<open>RoundFloat with a negative precision\<close>



section \<open>RoundFloat at the half-way point\<close>

text \<open>
  C7.  The code of \<open>decimals.go\<close> at the two inputs of the claim.  The double \<open>0.5\<close> is
  \<open>1 / 2\<close>, the double written \<open>55.555\<close> is \<open>7818671165580247 / 2 ^ 47\<close> (just below
  55.555), those written \<open>55.55\<close> and \<open>55.56\<close> are \<open>3908983739069235 / 2 ^ 46\<close> and
  \<open>977421856627753 / 2 ^ 44\<close>.  \<open>RoundFloat(0.5, 0)\<close> is \<open>0\<close> and
  \<open>RoundFloat(55.555, 2)\<close> is \<open>55.55\<close>, where the claim (and the README, for the second)
  say \<open>1\<close> and \<open>55.56\<close>; the scaling \<open>RoundFloat\<close> of the other source file returns
  \<open>1\<close> and \<open>55.56\<close>.
\<close>

theorem RoundFloat_half_way_evaluation:
  "ParseFloat ''0.5'' = Some (Finite False 1 (-1), None) \<and>
   ParseFloat ''55.555'' = Some (Finite False 7818671165580247 (-47), None) \<and>
   ParseFloat ''55.55'' = Some (Finite False 3908983739069235 (-46), None) \<and>
   ParseFloat ''55.56'' = Some (Finite False 977421856627753 (-44), None) \<and>
   RoundFloat (Finite False 1 (-1)) 0 = Some (Finite False 0 0) \<and>
   RoundFloat (Finite False 7818671165580247 (-47)) 2 = Some (Finite False 3908983739069235 (-46)) \<and>
   RoundFloat_scaling (Finite False 1 (-1)) 0 = Some (Finite False 1 0) \<and>
   RoundFloat_scaling (Finite False 7818671165580247 (-47)) 2 =
     Some (Finite False 977421856627753 (-44))"
  by (simp add: ParseFloat_05 ParseFloat_55555 ParseFloat_5555 ParseFloat_5556 RoundFloat_05
      RoundFloat_55555 RoundFloat_scaling_05 RoundFloat_scaling_55555 del: One_nat_def)

section \<open>The two implementations of RoundInt\<close>




end
